theory Spec2Isabelle
  imports Main "HOL-Library.Multiset"
begin

section \<open>Data model\<close>

text \<open>
  Both planning implementations (the \<open>DependencyManager\<close> class and the dependency
  analyzer function) keep, per service id, a list of dependency ids, a priority and a
  parallel group. The class adds the service's own name, the analyzer adds the
  estimated deploy time. A Python \<open>dict\<close> is an association list in insertion order.
\<close>

record service_fields =
  dependencies :: "string list"
  priority :: int
  parallel_group :: int

record ServiceInfo = service_fields +
  name :: string

record service_entry = service_fields +
  estimated_deploy_time :: int

type_synonym 'a services = "(string \<times> 'a service_fields_scheme) list"

datatype validation_error = CircularDependency | MissingDependency string

datatype error =
    InvalidDependencies "validation_error list"
  | UnknownStrategy string
  | CannotResolve "string list"
  | EmptyMax
  | KeyError string
  | RecursionError

text \<open>
  The iteration order of a Python \<open>set\<close> of strings is not fixed by its elements (string
  hashes are salted per process). A set that the code iterates is modelled by the list
  of its elements, and the order in which an iteration visits them by a parameter of
  type \<open>set_order\<close>: any function that permutes every list.
\<close>

typedef set_order = "{f :: string list \<Rightarrow> string list. \<forall>xs. mset (f xs) = mset xs}"
  by (rule exI [of _ "\<lambda>xs. xs"]) simp

setup_lifting type_definition_set_order

lift_definition iterate :: "set_order \<Rightarrow> string list \<Rightarrow> string list" is "\<lambda>f xs. f xs" .

lift_definition insertion_order :: set_order is "\<lambda>xs. xs"
  by simp

lift_definition reverse_order :: set_order is "\<lambda>xs. rev xs"
  by simp

lemma iterate_insertion_order [simp]: "iterate insertion_order xs = xs"
  by transfer simp

lemma iterate_reverse_order [simp]: "iterate reverse_order xs = rev xs"
  by transfer simp

lemma mset_iterate [simp]: "mset (iterate ord xs) = mset xs"
  by transfer simp

lemma set_iterate [simp]: "set (iterate ord xs) = set xs"
  by (metis mset_iterate set_mset_mset)

lemma distinct_iterate [simp]: "distinct (iterate ord xs) = distinct xs"
  by (metis mset_iterate mset_eq_imp_distinct_iff)

lemma length_iterate [simp]: "length (iterate ord xs) = length xs"
  by (metis mset_iterate size_mset)

lemma iterate_Nil [simp]: "iterate ord [] = []"
proof -
  have "length (iterate ord []) = 0"
    by (simp only: length_iterate list.size)
  then show ?thesis
    by (simp only: length_0_conv)
qed

section \<open>Dependency graph validator\<close>

text \<open>
  \<open>has_circular_dependencies\<close>: the recursive \<open>dfs\<close> closure mutates the two sets
  \<open>visited\<close> and \<open>rec_stack\<close>; the model passes them and returns them. Every call of
  \<open>dfs\<close> takes one interpreter frame, and the interpreter raises \<open>RecursionError\<close> when
  the frames run out: the first argument is the number of frames still available to
  \<open>dfs\<close> (the interpreter's recursion limit less the frames of the callers), a
  parameter of the validator. Nothing in the code catches the error.
\<close>

type_synonym dfs_state = "string set \<times> string set"

fun dfs :: "nat \<Rightarrow> 'a services \<Rightarrow> string \<Rightarrow> dfs_state \<Rightarrow> error + (bool \<times> dfs_state)"
  and dfs_deps :: "nat \<Rightarrow> 'a services \<Rightarrow> string list \<Rightarrow> dfs_state \<Rightarrow> error + (bool \<times> dfs_state)"
where
  "dfs 0 g service st = Inl RecursionError"
| "dfs (Suc n) g service (visited, rec_stack) =
     (case (case map_of g service of
              None \<Rightarrow> Inr (False, insert service visited, insert service rec_stack)
            | Some info \<Rightarrow>
                dfs_deps n g (dependencies info) (insert service visited, insert service rec_stack)) of
        Inl e \<Rightarrow> Inl e
      | Inr (True, st) \<Rightarrow> Inr (True, st)
      | Inr (False, (visited', rec_stack')) \<Rightarrow> Inr (False, (visited', rec_stack' - {service})))"
| "dfs_deps n g [] st = Inr (False, st)"
| "dfs_deps n g (dep # deps) (visited, rec_stack) =
     (if dep \<notin> visited then
        (case dfs n g dep (visited, rec_stack) of
           Inl e \<Rightarrow> Inl e
         | Inr (True, st) \<Rightarrow> Inr (True, st)
         | Inr (False, st) \<Rightarrow> dfs_deps n g deps st)
      else if dep \<in> rec_stack then Inr (True, (visited, rec_stack))
      else dfs_deps n g deps (visited, rec_stack))"

fun dfs_all :: "nat \<Rightarrow> 'a services \<Rightarrow> string list \<Rightarrow> dfs_state \<Rightarrow> error + bool" where
  "dfs_all n g [] st = Inr False"
| "dfs_all n g (service # rest) (visited, rec_stack) =
     (if service \<notin> visited then
        (case dfs n g service (visited, rec_stack) of
           Inl e \<Rightarrow> Inl e
         | Inr (True, st) \<Rightarrow> Inr True
         | Inr (False, st) \<Rightarrow> dfs_all n g rest st)
      else dfs_all n g rest (visited, rec_stack))"

definition has_circular_dependencies :: "nat \<Rightarrow> 'a services \<Rightarrow> error + bool" where
  "has_circular_dependencies limit g = dfs_all limit g (map fst g) ({}, {})"

text \<open>
  \<open>check_missing_dependencies\<close> collects every dependency id that is not a key, then
  returns \<open>list(set(missing))\<close>: each id once, in the set's iteration order.
\<close>

definition check_missing_dependencies :: "set_order \<Rightarrow> 'a services \<Rightarrow> string list" where
  "check_missing_dependencies ord g =
     iterate ord (remdups (concat (map (\<lambda>(k, info).
        filter (\<lambda>dep. dep \<notin> set (map fst g)) (dependencies info)) g)))"

definition validate_dependencies ::
  "set_order \<Rightarrow> nat \<Rightarrow> 'a services \<Rightarrow> error + (bool \<times> validation_error list)" where
  "validate_dependencies ord limit g =
     (case has_circular_dependencies limit g of
        Inl e \<Rightarrow> Inl e
      | Inr circular \<Rightarrow>
          (let errors = (if circular then [CircularDependency] else []);
               missing = check_missing_dependencies ord g;
               errors = errors @ map MissingDependency missing
           in Inr (errors = [], errors)))"

text \<open>
  Every id the graph mentions: its keys and the ids in its dependency lists. A chain of
  calls of \<open>dfs\<close> visits pairwise different ids of this list, so it is never longer
  than the list.
\<close>

definition graph_nodes :: "'a services \<Rightarrow> string list" where
  "graph_nodes g = map fst g @ concat (map (\<lambda>(k, info). dependencies info) g)"

text \<open>
  The shape the specification gives the missing-dependency report: one entry per
  (service, dependency) pair whose dependency id is not a key of the graph.
\<close>

definition missing_pairs :: "'a services \<Rightarrow> (string \<times> string) list" where
  "missing_pairs g =
     concat (map (\<lambda>(k, info). map (\<lambda>dep. (k, dep))
       (filter (\<lambda>dep. dep \<notin> set (map fst g)) (dependencies info))) g)"

definition missing_ids :: "'a services \<Rightarrow> string set" where
  "missing_ids g =
     {dep. \<exists>k info. (k, info) \<in> set g \<and> dep \<in> set (dependencies info) \<and> dep \<notin> fst ` set g}"

definition svc :: "string list \<Rightarrow> int \<Rightarrow> int \<Rightarrow> service_fields" where
  "svc ds p grp = \<lparr>dependencies = ds, priority = p, parallel_group = grp\<rparr>"

section \<open>Rollback order resolver\<close>

text \<open>
  \<open>get_rollback_order\<close>: \<open>self.config.get('rollback_order', [])\<close> is the optional
  configured list; \<open>set(deployed_services) - set(rollback_order)\<close> is a set, turned into
  a list in its iteration order. The function has no raising operation.
\<close>

definition get_rollback_order :: "set_order \<Rightarrow> string list option \<Rightarrow> string list \<Rightarrow> string list" where
  "get_rollback_order ord config_rollback_order deployed_services =
     (let rollback_config = (case config_rollback_order of None \<Rightarrow> [] | Some xs \<Rightarrow> xs);
          rollback_order = filter (\<lambda>service. service \<in> set deployed_services) rollback_config;
          remaining = filter (\<lambda>s. s \<notin> set rollback_order) (remdups deployed_services)
      in rollback_order @ iterate ord remaining)"

section \<open>Wave planning: the pieces both implementations share\<close>

text \<open>
  The two implementations run the same loops over the same per-service fields. The
  class stores each \<open>ServiceInfo\<close> under its own name (\<open>_parse_services\<close> sets
  \<open>name=service_name\<close> and nothing else builds one), so where the class reads
  \<open>service.name\<close> the model writes the key the entry is stored under.
\<close>

definition lookup :: "'a services \<Rightarrow> string \<Rightarrow> error + 'a service_fields_scheme" where
  "lookup si service =
     (case map_of si service of None \<Rightarrow> Inl (KeyError service) | Some info \<Rightarrow> Inr info)"

text \<open>\<open>all(dep in deployed or dep not in services for dep in dependencies)\<close>\<close>

definition deps_satisfied :: "'a services \<Rightarrow> string set \<Rightarrow> string list \<Rightarrow> bool" where
  "deps_satisfied si deployed deps =
     list_all (\<lambda>dep. dep \<in> deployed \<or> dep \<notin> set (map fst si)) deps"

text \<open>
  A \<open>defaultdict(list)\<close> keyed by group number, in insertion order:
  \<open>groups[k].append(v)\<close> and \<open>groups[k]\<close>.
\<close>

definition group_append :: "int \<Rightarrow> string \<Rightarrow> (int \<times> string list) list \<Rightarrow> (int \<times> string list) list" where
  "group_append k v groups =
     (case map_of groups k of
        None \<Rightarrow> groups @ [(k, [v])]
      | Some vs \<Rightarrow> map (\<lambda>(k', vs'). if k' = k then (k', vs' @ [v]) else (k', vs')) groups)"

definition group_members :: "(int \<times> string list) list \<Rightarrow> int \<Rightarrow> string list" where
  "group_members groups k = (case map_of groups k of None \<Rightarrow> [] | Some vs \<Rightarrow> vs)"

text \<open>
  The \<open>for service_name in remaining\<close> loop of the parallel-optimized planner: it looks
  every remaining service up and files the deployable ones under their parallel group.
\<close>

fun parallel_groups ::
  "'a services \<Rightarrow> string set \<Rightarrow> string list \<Rightarrow> (int \<times> string list) list
     \<Rightarrow> error + (int \<times> string list) list" where
  "parallel_groups si deployed [] groups = Inr groups"
| "parallel_groups si deployed (service # rest) groups =
     (case lookup si service of
        Inl e \<Rightarrow> Inl e
      | Inr info \<Rightarrow>
          parallel_groups si deployed rest
            (if deps_satisfied si deployed (dependencies info)
             then group_append (parallel_group info) service groups else groups))"

text \<open>The \<open>for service_name in remaining\<close> loop of the priority-based planner.\<close>

fun find_deployable ::
  "'a services \<Rightarrow> string set \<Rightarrow> string list \<Rightarrow> (string \<times> 'a service_fields_scheme) list
     \<Rightarrow> error + (string \<times> 'a service_fields_scheme) list" where
  "find_deployable si deployed [] deployable = Inr deployable"
| "find_deployable si deployed (service # rest) deployable =
     (case lookup si service of
        Inl e \<Rightarrow> Inl e
      | Inr info \<Rightarrow>
          find_deployable si deployed rest
            (if deps_satisfied si deployed (dependencies info)
             then deployable @ [(service, info)] else deployable))"

text \<open>
  One pass of the \<open>while remaining\<close> loop up to the choice of the wave: the smallest
  group number and the members filed under it.
\<close>

definition parallel_optimized_step ::
  "set_order \<Rightarrow> 'a services \<Rightarrow> string set \<Rightarrow> string list \<Rightarrow> error + (int \<times> string list)" where
  "parallel_optimized_step ord si deployed remaining =
     (case parallel_groups si deployed (iterate ord remaining) [] of
        Inl e \<Rightarrow> Inl e
      | Inr groups \<Rightarrow>
          if groups \<noteq> [] then
            (let min_group = min_list (map fst groups)
             in Inr (min_group, group_members groups min_group))
          else Inl (CannotResolve remaining))"

definition priority_based_step ::
  "set_order \<Rightarrow> 'a services \<Rightarrow> string set \<Rightarrow> string list \<Rightarrow> error + (int \<times> string list)" where
  "priority_based_step ord si deployed remaining =
     (case find_deployable si deployed (iterate ord remaining) [] of
        Inl e \<Rightarrow> Inl e
      | Inr deployable \<Rightarrow>
          if deployable = [] then Inl (CannotResolve remaining)
          else
            (let priority_groups =
                   fold (\<lambda>(service, info). group_append (priority info) service) deployable [];
                 min_priority = min_list (map fst priority_groups)
             in Inr (min_priority, group_members priority_groups min_priority)))"

lemma map_fst_group_append:
  "map fst (group_append k v G) = (if k \<in> set (map fst G) then map fst G else map fst G @ [k])"
proof (cases "map_of G k")
  case None
  then have "k \<notin> set (map fst G)"
    by (simp add: map_of_eq_None_iff)
  with None show ?thesis
    by (simp add: group_append_def)
next
  case (Some vs)
  have "map fst (map (\<lambda>(k', vs'). if k' = k then (k', vs' @ [v]) else (k', vs')) G) = map fst G"
    by (induction G) auto
  moreover have "k \<in> set (map fst G)"
    using Some by (auto dest: map_of_SomeD intro: rev_image_eqI)
  ultimately show ?thesis
    using Some by (simp add: group_append_def)
qed

lemma keys_group_append: "fst ` set (group_append k v G) = insert k (fst ` set G)"
proof -
  have "set (map fst (group_append k v G)) = insert k (set (map fst G))"
    by (simp only: map_fst_group_append) auto
  then show ?thesis by simp
qed

lemma group_members_append:
  "group_members (group_append k v G) k' =
     (if k' = k then group_members G k @ [v] else group_members G k')"
proof (cases "map_of G k")
  case None
  then show ?thesis
    by (auto simp: group_append_def group_members_def map_add_def split: option.splits)
next
  case (Some vs)
  have "map_of (map (\<lambda>(k', vs'). if k' = k then (k', vs' @ [v]) else (k', vs')) G) k' =
        (if k' = k then map_option (\<lambda>vs'. vs' @ [v]) (map_of G k') else map_of G k')"
    by (induction G) auto
  with Some show ?thesis
    by (auto simp: group_append_def group_members_def split: option.splits)
qed

lemma group_members_Nil [simp]: "group_members [] k = []"
  by (simp add: group_members_def)


text \<open>
  What the two loops compute, said without the loop: a remaining service is eligible
  for group \<open>k\<close> when it is a key, its dependencies are satisfied and its group
  (parallel group or priority) is \<open>k\<close>.
\<close>

definition eligible ::
  "('a service_fields_scheme \<Rightarrow> int) \<Rightarrow> 'a services \<Rightarrow> string set \<Rightarrow> int \<Rightarrow> string \<Rightarrow> bool" where
  "eligible key si deployed k s =
     (case map_of si s of
        None \<Rightarrow> False
      | Some info \<Rightarrow> deps_satisfied si deployed (dependencies info) \<and> key info = k)"

lemma parallel_groups_keys:
  "parallel_groups si deployed xs G = Inr G' \<Longrightarrow> set xs \<subseteq> fst ` set si"
proof (induction xs arbitrary: G)
  case Nil
  then show ?case by simp
next
  case (Cons x xs)
  from Cons.prems obtain info where i: "map_of si x = Some info"
    by (auto simp: lookup_def split: option.splits)
  with Cons.prems have
    "parallel_groups si deployed xs
       (if deps_satisfied si deployed (dependencies info)
        then group_append (parallel_group info) x G else G) = Inr G'"
    by (simp add: lookup_def)
  from Cons.IH [OF this] i show ?case
    by (auto dest: map_of_SomeD intro: rev_image_eqI)
qed

lemma parallel_groups_char:
  assumes "parallel_groups si deployed xs G = Inr G'"
  shows "group_members G' k = group_members G k @ filter (eligible parallel_group si deployed k) xs"
    and "fst ` set G' =
           fst ` set G \<union> {k. \<exists>s \<in> set xs. eligible parallel_group si deployed k s}"
  using assms
proof (induction xs arbitrary: G)
  case Nil
  {
    case 1 then show ?case by simp
  next
    case 2 then show ?case by simp
  }
next
  case (Cons x xs)
  {
    case 1
    from 1 obtain info where i: "map_of si x = Some info"
      by (auto simp: lookup_def split: option.splits)
    define G1 where "G1 = (if deps_satisfied si deployed (dependencies info)
        then group_append (parallel_group info) x G else G)"
    from 1 i have r: "parallel_groups si deployed xs G1 = Inr G'"
      by (simp add: lookup_def G1_def)
    have "group_members G1 k = group_members G k @ filter (eligible parallel_group si deployed k) [x]"
      using i by (simp add: G1_def eligible_def group_members_append)
    with Cons.IH(1) [OF r] show ?case
      by simp
  next
    case 2
    from 2 obtain info where i: "map_of si x = Some info"
      by (auto simp: lookup_def split: option.splits)
    define G1 where "G1 = (if deps_satisfied si deployed (dependencies info)
        then group_append (parallel_group info) x G else G)"
    from 2 i have r: "parallel_groups si deployed xs G1 = Inr G'"
      by (simp add: lookup_def G1_def)
    have "fst ` set G1 = fst ` set G \<union> {k. eligible parallel_group si deployed k x}"
      using i by (auto simp: G1_def eligible_def keys_group_append)
    with Cons.IH(2) [OF r] show ?case
      by auto
  }
qed


lemma parallel_groups_returns:
  "set xs \<subseteq> fst ` set si \<Longrightarrow> \<exists>G'. parallel_groups si deployed xs G = Inr G'"
proof (induction xs arbitrary: G)
  case Nil
  then show ?case by simp
next
  case (Cons x xs)
  from Cons.prems have "map_of si x \<noteq> None"
    by (simp add: map_of_eq_None_iff)
  then obtain info where "map_of si x = Some info" by blast
  with Cons.IH Cons.prems show ?case
    by (simp add: lookup_def)
qed

lemma min_list_least:
  fixes ks :: "int list"
  assumes "ks \<noteq> []"
  shows "min_list ks \<in> set ks" and "\<And>k. k \<in> set ks \<Longrightarrow> min_list ks \<le> k"
  using assms by (simp_all add: min_list_Min)

lemma parallel_optimized_step_char:
  assumes "parallel_optimized_step ord si deployed remaining = Inr (m, w)"
  shows "set remaining \<subseteq> fst ` set si"
    and "w = filter (eligible parallel_group si deployed m) (iterate ord remaining)"
    and "w \<noteq> []"
    and "\<And>k s. s \<in> set remaining \<Longrightarrow> eligible parallel_group si deployed k s \<Longrightarrow> m \<le> k"
proof -
  from assms obtain G where
    g: "parallel_groups si deployed (iterate ord remaining) [] = Inr G" and ne: "G \<noteq> []"
    and m: "m = min_list (map fst G)" and w: "w = group_members G m"
    by (auto simp: parallel_optimized_step_def Let_def split: sum.splits if_splits)
  from parallel_groups_keys [OF g] show "set remaining \<subseteq> fst ` set si"
    by simp
  from parallel_groups_char(1) [OF g, of m] w
  show w': "w = filter (eligible parallel_group si deployed m) (iterate ord remaining)"
    by simp
  have keys: "set (map fst G) = {k. \<exists>s \<in> set remaining. eligible parallel_group si deployed k s}"
    using parallel_groups_char(2) [OF g] by simp
  from ne have "min_list (map fst G) \<in> set (map fst G)"
    by (intro min_list_least(1)) simp
  with keys m obtain s where "s \<in> set remaining" "eligible parallel_group si deployed m s"
    by auto
  with w' show "w \<noteq> []"
    by (auto simp: filter_empty_conv)
  show "m \<le> k" if "s \<in> set remaining" "eligible parallel_group si deployed k s" for k s
  proof -
    from that keys have "k \<in> set (map fst G)" by auto
    with ne m show ?thesis
      using min_list_least(2) [of "map fst G" k] by simp
  qed
qed

lemma parallel_optimized_step_error:
  assumes "parallel_optimized_step ord si deployed remaining = Inl e"
    and "set remaining \<subseteq> fst ` set si"
  shows "e = CannotResolve remaining"
    and "\<And>k s. s \<in> set remaining \<Longrightarrow> \<not> eligible parallel_group si deployed k s"
proof -
  from assms(2) obtain G where
    g: "parallel_groups si deployed (iterate ord remaining) [] = Inr G"
    using parallel_groups_returns [of "iterate ord remaining" si deployed "[]"] by auto
  with assms(1) have G: "G = []" and e: "e = CannotResolve remaining"
    by (auto simp: parallel_optimized_step_def Let_def split: if_splits)
  show "e = CannotResolve remaining" by (rule e)
  from parallel_groups_char(2) [OF g] G
  have "{k. \<exists>s \<in> set remaining. eligible parallel_group si deployed k s} = {}"
    by simp
  then show "\<not> eligible parallel_group si deployed k s" if "s \<in> set remaining" for k s
    using that by blast
qed


lemma find_deployable_keys:
  "find_deployable si deployed xs D = Inr D' \<Longrightarrow> set xs \<subseteq> fst ` set si"
proof (induction xs arbitrary: D)
  case Nil
  then show ?case by simp
next
  case (Cons x xs)
  from Cons.prems obtain info where i: "map_of si x = Some info"
    by (auto simp: lookup_def split: option.splits)
  with Cons.prems have
    "find_deployable si deployed xs
       (if deps_satisfied si deployed (dependencies info) then D @ [(x, info)] else D) = Inr D'"
    by (simp add: lookup_def)
  from Cons.IH [OF this] i show ?case
    by (auto dest: map_of_SomeD intro: rev_image_eqI)
qed

lemma find_deployable_returns:
  "set xs \<subseteq> fst ` set si \<Longrightarrow> \<exists>D'. find_deployable si deployed xs D = Inr D'"
proof (induction xs arbitrary: D)
  case Nil
  then show ?case by simp
next
  case (Cons x xs)
  from Cons.prems have "map_of si x \<noteq> None"
    by (simp add: map_of_eq_None_iff)
  then obtain info where "map_of si x = Some info" by blast
  with Cons.IH Cons.prems show ?case
    by (simp add: lookup_def)
qed

lemma priority_groups_char:
  assumes "find_deployable si deployed xs D = Inr D'"
  shows "group_members (fold (\<lambda>(service, info). group_append (priority info) service) D' []) k
           = group_members (fold (\<lambda>(service, info). group_append (priority info) service) D []) k
               @ filter (eligible priority si deployed k) xs"
    and "fst ` set (fold (\<lambda>(service, info). group_append (priority info) service) D' [])
           = fst ` set (fold (\<lambda>(service, info). group_append (priority info) service) D [])
               \<union> {k. \<exists>s \<in> set xs. eligible priority si deployed k s}"
    and "D' = [] \<longleftrightarrow> D = [] \<and> (\<forall>s \<in> set xs. \<forall>k. \<not> eligible priority si deployed k s)"
  using assms
proof (induction xs arbitrary: D)
  case Nil
  {
    case 1 then show ?case by simp
  next
    case 2 then show ?case by simp
  next
    case 3 then show ?case by simp
  }
next
  case (Cons x xs)
  {
    case 1
    from 1 obtain info where i: "map_of si x = Some info"
      by (auto simp: lookup_def split: option.splits)
    define D1 where "D1 = (if deps_satisfied si deployed (dependencies info)
        then D @ [(x, info)] else D)"
    from 1 i have r: "find_deployable si deployed xs D1 = Inr D'"
      by (simp add: lookup_def D1_def)
    have "group_members (fold (\<lambda>(service, info). group_append (priority info) service) D1 []) k
        = group_members (fold (\<lambda>(service, info). group_append (priority info) service) D []) k
            @ filter (eligible priority si deployed k) [x]"
      using i by (simp add: D1_def eligible_def group_members_append)
    with Cons.IH(1) [OF r] show ?case
      by simp
  next
    case 2
    from 2 obtain info where i: "map_of si x = Some info"
      by (auto simp: lookup_def split: option.splits)
    define D1 where "D1 = (if deps_satisfied si deployed (dependencies info)
        then D @ [(x, info)] else D)"
    from 2 i have r: "find_deployable si deployed xs D1 = Inr D'"
      by (simp add: lookup_def D1_def)
    have "fst ` set (fold (\<lambda>(service, info). group_append (priority info) service) D1 [])
        = fst ` set (fold (\<lambda>(service, info). group_append (priority info) service) D [])
            \<union> {k. eligible priority si deployed k x}"
      using i by (auto simp: D1_def eligible_def keys_group_append)
    with Cons.IH(2) [OF r] show ?case
      by auto
  next
    case 3
    from 3 obtain info where i: "map_of si x = Some info"
      by (auto simp: lookup_def split: option.splits)
    define D1 where "D1 = (if deps_satisfied si deployed (dependencies info)
        then D @ [(x, info)] else D)"
    from 3 i have r: "find_deployable si deployed xs D1 = Inr D'"
      by (simp add: lookup_def D1_def)
    have "D1 = [] \<longleftrightarrow> D = [] \<and> (\<forall>k. \<not> eligible priority si deployed k x)"
      using i by (auto simp: D1_def eligible_def)
    with Cons.IH(3) [OF r] show ?case
      by auto
  }
qed

lemma priority_based_step_char:
  assumes "priority_based_step ord si deployed remaining = Inr (m, w)"
  shows "set remaining \<subseteq> fst ` set si"
    and "w = filter (eligible priority si deployed m) (iterate ord remaining)"
    and "w \<noteq> []"
    and "\<And>k s. s \<in> set remaining \<Longrightarrow> eligible priority si deployed k s \<Longrightarrow> m \<le> k"
proof -
  from assms obtain D where
    d: "find_deployable si deployed (iterate ord remaining) [] = Inr D" and ne: "D \<noteq> []"
    by (auto simp: priority_based_step_def Let_def split: sum.splits if_splits)
  define G where "G = fold (\<lambda>(service, info). group_append (priority info) service) D []"
  from assms d ne have "min_list (map fst G) = m \<and> group_members G (min_list (map fst G)) = w"
    unfolding priority_based_step_def Let_def G_def by auto
  then have m: "m = min_list (map fst G)" and w: "w = group_members G m"
    by auto
  from find_deployable_keys [OF d] show "set remaining \<subseteq> fst ` set si"
    by simp
  from priority_groups_char(1) [OF d, of m] w
  show w': "w = filter (eligible priority si deployed m) (iterate ord remaining)"
    by (simp add: G_def)
  have keys: "set (map fst G) = {k. \<exists>s \<in> set remaining. eligible priority si deployed k s}"
    using priority_groups_char(2) [OF d] by (simp add: G_def)
  from priority_groups_char(3) [OF d] ne
  have "\<exists>s \<in> set remaining. \<exists>k. eligible priority si deployed k s"
    by simp
  with keys have Gne: "G \<noteq> []" by auto
  then have "min_list (map fst G) \<in> set (map fst G)"
    by (intro min_list_least(1)) simp
  with keys m obtain s where "s \<in> set remaining" "eligible priority si deployed m s"
    by auto
  with w' show "w \<noteq> []"
    by (auto simp: filter_empty_conv)
  show "m \<le> k" if "s \<in> set remaining" "eligible priority si deployed k s" for k s
  proof -
    from that keys have "k \<in> set (map fst G)" by auto
    with Gne m show ?thesis
      using min_list_least(2) [of "map fst G" k] by simp
  qed
qed

lemma priority_based_step_error:
  assumes "priority_based_step ord si deployed remaining = Inl e"
    and "set remaining \<subseteq> fst ` set si"
  shows "e = CannotResolve remaining"
    and "\<And>k s. s \<in> set remaining \<Longrightarrow> \<not> eligible priority si deployed k s"
proof -
  from assms(2) obtain D where
    d: "find_deployable si deployed (iterate ord remaining) [] = Inr D"
    using find_deployable_returns [of "iterate ord remaining" si deployed "[]"] by auto
  with assms(1) have D: "D = []" and e: "e = CannotResolve remaining"
    by (auto simp: priority_based_step_def Let_def split: if_splits)
  show "e = CannotResolve remaining" by (rule e)
  from priority_groups_char(3) [OF d] D
  show "\<not> eligible priority si deployed k s" if "s \<in> set remaining" for k s
    using that by simp
qed


lemma remove_wave_shorter:
  assumes "w = filter P (iterate ord remaining)" and "w \<noteq> []"
  shows "length (filter (\<lambda>s. s \<notin> set w) remaining) < length remaining"
proof -
  from assms(2) obtain x xs where "w = x # xs"
    by (meson neq_Nil_conv)
  then have x: "x \<in> set w" by simp
  have "set w \<subseteq> set (iterate ord remaining)"
    unfolding assms(1) by (rule filter_is_subset)
  with x have "x \<in> set remaining" by auto
  with x show ?thesis
    by (intro length_filter_less [of x]) auto
qed

section \<open>The class: deployment order\<close>

text \<open>\<open>_get_parallel_optimized_order\<close> and \<open>_get_priority_based_order\<close>: the \<open>while remaining\<close> loops.\<close>

function parallel_optimized_order_loop ::
  "set_order \<Rightarrow> 'a services \<Rightarrow> string list list \<Rightarrow> string set \<Rightarrow> string list
     \<Rightarrow> error + string list list" where
  "parallel_optimized_order_loop ord si ws deployed remaining =
     (if remaining = [] then Inr ws
      else
        (case parallel_optimized_step ord si deployed remaining of
           Inl e \<Rightarrow> Inl e
         | Inr (min_group, current_wave) \<Rightarrow>
             parallel_optimized_order_loop ord si (ws @ [current_wave])
               (deployed \<union> set current_wave)
               (filter (\<lambda>s. s \<notin> set current_wave) remaining)))"
  by pat_completeness auto
termination
proof (relation "measure (\<lambda>(ord, si, ws, deployed, remaining). length remaining)")
  show "wf (measure (\<lambda>(ord, si, ws, deployed, remaining). length remaining))"
    by simp
next
  fix ord and si :: "'a services" and ws deployed and remaining :: "string list"
    and x min_group current_wave
  assume "parallel_optimized_step ord si deployed remaining = Inr x"
    and "(min_group, current_wave) = x"
  then have "parallel_optimized_step ord si deployed remaining = Inr (min_group, current_wave)"
    by simp
  from remove_wave_shorter [OF parallel_optimized_step_char(2) [OF this]
      parallel_optimized_step_char(3) [OF this]]
  show "((ord, si, ws @ [current_wave], deployed \<union> set current_wave,
           filter (\<lambda>s. s \<notin> set current_wave) remaining),
          ord, si, ws, deployed, remaining)
         \<in> measure (\<lambda>(ord, si, ws, deployed, remaining). length remaining)"
    by simp
qed

function priority_based_order_loop ::
  "set_order \<Rightarrow> 'a services \<Rightarrow> string list list \<Rightarrow> string set \<Rightarrow> string list
     \<Rightarrow> error + string list list" where
  "priority_based_order_loop ord si ws deployed remaining =
     (if remaining = [] then Inr ws
      else
        (case priority_based_step ord si deployed remaining of
           Inl e \<Rightarrow> Inl e
         | Inr (min_priority, current_wave) \<Rightarrow>
             priority_based_order_loop ord si (ws @ [current_wave])
               (deployed \<union> set current_wave)
               (filter (\<lambda>s. s \<notin> set current_wave) remaining)))"
  by pat_completeness auto
termination
proof (relation "measure (\<lambda>(ord, si, ws, deployed, remaining). length remaining)")
  show "wf (measure (\<lambda>(ord, si, ws, deployed, remaining). length remaining))"
    by simp
next
  fix ord and si :: "'a services" and ws deployed and remaining :: "string list"
    and x min_priority current_wave
  assume "priority_based_step ord si deployed remaining = Inr x"
    and "(min_priority, current_wave) = x"
  then have "priority_based_step ord si deployed remaining = Inr (min_priority, current_wave)"
    by simp
  from remove_wave_shorter [OF priority_based_step_char(2) [OF this]
      priority_based_step_char(3) [OF this]]
  show "((ord, si, ws @ [current_wave], deployed \<union> set current_wave,
           filter (\<lambda>s. s \<notin> set current_wave) remaining),
          ord, si, ws, deployed, remaining)
         \<in> measure (\<lambda>(ord, si, ws, deployed, remaining). length remaining)"
    by simp
qed

definition get_parallel_optimized_order :: "set_order \<Rightarrow> 'a services \<Rightarrow> error + string list list" where
  "get_parallel_optimized_order ord si = parallel_optimized_order_loop ord si [] {} (map fst si)"

definition get_priority_based_order :: "set_order \<Rightarrow> 'a services \<Rightarrow> error + string list list" where
  "get_priority_based_order ord si = priority_based_order_loop ord si [] {} (map fst si)"

text \<open>
  \<open>_get_sequential_order\<close> (and \<open>create_sequential_waves\<close>): Kahn's algorithm. The dict
  \<open>in_degree\<close> has exactly the keys of the service map from its creation on, and only
  its values change; the model keeps the values as a function and tests
  \<open>dep in in_degree\<close> against the keys of the service map.
\<close>

fun count_deps :: "'a services \<Rightarrow> string \<Rightarrow> string list \<Rightarrow> (string \<Rightarrow> int) \<Rightarrow> (string \<Rightarrow> int)" where
  "count_deps si service [] in_degree = in_degree"
| "count_deps si service (dep # deps) in_degree =
     count_deps si service deps
       (if dep \<in> set (map fst si) then in_degree(service := in_degree service + 1)
        else in_degree)"

fun count_in_degrees :: "'a services \<Rightarrow> 'a services \<Rightarrow> (string \<Rightarrow> int) \<Rightarrow> (string \<Rightarrow> int)" where
  "count_in_degrees si [] in_degree = in_degree"
| "count_in_degrees si ((service, info) # rest) in_degree =
     count_in_degrees si rest (count_deps si service (dependencies info) in_degree)"

text \<open>
  The \<open>for\<close> loop in the body of \<open>while queue\<close>: every service that lists \<open>current\<close>
  loses one from its in-degree, once, and joins the queue when that makes it zero.
\<close>

fun release ::
  "string \<Rightarrow> 'a services \<Rightarrow> (string \<Rightarrow> int) \<Rightarrow> string list \<Rightarrow> (string \<Rightarrow> int) \<times> string list" where
  "release current [] in_degree queue = (in_degree, queue)"
| "release current ((service, info) # rest) in_degree queue =
     (if current \<in> set (dependencies info) then
        release current rest (in_degree(service := in_degree service - 1))
          (if in_degree service - 1 = 0 then queue @ [service] else queue)
      else release current rest in_degree queue)"

lemma release_measure:
  assumes "finite N" and "fst ` set rows \<subseteq> N"
    and "release current rows d q = (d', q')"
  shows "length q' + card {s \<in> N. 1 \<le> d' s} \<le> length q + card {s \<in> N. 1 \<le> d s}"
  using assms(2,3)
proof (induction rows arbitrary: d q)
  case Nil
  then show ?case by simp
next
  case (Cons row rows)
  obtain service info where row: "row = (service, info)" by (cases row)
  show ?case
  proof (cases "current \<in> set (dependencies info)")
    case False
    with Cons row show ?thesis by simp
  next
    case True
    define d1 where "d1 = d(service := d service - 1)"
    define q1 where "q1 = (if d service - 1 = 0 then q @ [service] else q)"
    from Cons.prems True row have r: "release current rows d1 q1 = (d', q')"
      by (simp add: d1_def q1_def)
    from Cons.prems row have N: "service \<in> N" "fst ` set rows \<subseteq> N" by auto
    have fin: "finite {s \<in> N. 1 \<le> d s}" using assms(1) by simp
    have step: "length q1 + card {s \<in> N. 1 \<le> d1 s} \<le> length q + card {s \<in> N. 1 \<le> d s}"
    proof (cases "d service - 1 = 0")
      case True
      then have "{s \<in> N. 1 \<le> d1 s} = {s \<in> N. 1 \<le> d s} - {service}"
        by (auto simp: d1_def)
      moreover have "service \<in> {s \<in> N. 1 \<le> d s}"
        using True N by simp
      ultimately have "card {s \<in> N. 1 \<le> d1 s} = card {s \<in> N. 1 \<le> d s} - 1"
        and "card {s \<in> N. 1 \<le> d s} \<noteq> 0"
        using fin by auto
      with True show ?thesis by (simp add: q1_def)
    next
      case False
      have "{s \<in> N. 1 \<le> d1 s} \<subseteq> {s \<in> N. 1 \<le> d s}"
        by (auto simp: d1_def split: if_splits)
      then have "card {s \<in> N. 1 \<le> d1 s} \<le> card {s \<in> N. 1 \<le> d s}"
        using fin by (intro card_mono)
      with False show ?thesis by (simp add: q1_def)
    qed
    from Cons.IH [OF N(2) r] step show ?thesis by simp
  qed
qed

function sequential_order_loop ::
  "'a services \<Rightarrow> (string \<Rightarrow> int) \<Rightarrow> string list \<Rightarrow> string list list \<Rightarrow> string list list" where
  "sequential_order_loop si in_degree queue result =
     (case queue of
        [] \<Rightarrow> result
      | current # queue' \<Rightarrow>
          (case release current si in_degree queue' of
             (in_degree', queue'') \<Rightarrow>
               sequential_order_loop si in_degree' queue'' (result @ [[current]])))"
  by pat_completeness auto
termination
proof (relation "measure (\<lambda>(si, in_degree, queue, result).
    length queue + card {s \<in> fst ` set si. 1 \<le> in_degree s})")
  show "wf (measure (\<lambda>(si, in_degree, queue, result).
    length queue + card {s \<in> fst ` set si. 1 \<le> in_degree s}))"
    by simp
next
  fix si :: "'a services" and in_degree queue result current queue' in_degree' queue''
  assume q: "queue = current # queue'"
    and "(in_degree', queue'') = release current si in_degree queue'"
  then have "release current si in_degree queue' = (in_degree', queue'')" by simp
  from release_measure [OF _ _ this, of "fst ` set si"]
  have "length queue'' + card {s \<in> fst ` set si. 1 \<le> in_degree' s}
      \<le> length queue' + card {s \<in> fst ` set si. 1 \<le> in_degree s}"
    by simp
  with q show "((si, in_degree', queue'', result @ [[current]]), si, in_degree, queue, result)
      \<in> measure (\<lambda>(si, in_degree, queue, result).
          length queue + card {s \<in> fst ` set si. 1 \<le> in_degree s})"
    by simp
qed

definition get_sequential_order :: "'a services \<Rightarrow> string list list" where
  "get_sequential_order si =
     (let in_degree = count_in_degrees si si (\<lambda>service. 0);
          queue = filter (\<lambda>service. in_degree service = 0) (map fst si)
      in sequential_order_loop si in_degree queue [])"

text \<open>
  \<open>get_deployment_order\<close>. The strategy catalogue \<open>config['deployment_strategies']\<close> comes
  from the configuration file: a parameter, each entry with its optional
  \<open>allow_parallel\<close> and \<open>max_concurrent\<close>. \<open>services_to_deploy\<close> is optional.
\<close>

record strategy_options =
  allow_parallel_option :: "bool option"
  max_concurrent_option :: "int option"

definition get_deployment_order ::
  "set_order \<Rightarrow> nat \<Rightarrow> (string \<times> strategy_options) list \<Rightarrow> 'a services \<Rightarrow> string
     \<Rightarrow> string list option \<Rightarrow> error + string list list" where
  "get_deployment_order ord limit deployment_strategies si strat services_to_deploy =
     (case validate_dependencies ord limit si of
        Inl e \<Rightarrow> Inl e
      | Inr (is_valid, errors) \<Rightarrow>
          if \<not> is_valid then Inl (InvalidDependencies errors)
          else
            (let to_deploy = (case services_to_deploy of None \<Rightarrow> map fst si | Some xs \<Rightarrow> xs);
                 filtered_services = filter (\<lambda>(name, info). name \<in> set to_deploy) si;
                 allow_parallel =
                   (case map_of deployment_strategies strat of
                      None \<Rightarrow> False
                    | Some strategy_config \<Rightarrow>
                        (case allow_parallel_option strategy_config of
                           None \<Rightarrow> False
                         | Some b \<Rightarrow> b))
             in if \<not> allow_parallel \<or> strat = ''sequential'' then
                  Inr (get_sequential_order filtered_services)
                else if strat = ''parallel_optimized'' then
                  get_parallel_optimized_order ord filtered_services
                else if strat = ''priority_based'' then
                  get_priority_based_order ord filtered_services
                else Inl (UnknownStrategy strat)))"

text \<open>A strategy catalogue like the analyzer's: the two parallel strategies allow parallel waves.\<close>

definition standard_strategies :: "(string \<times> strategy_options) list" where
  "standard_strategies =
     [(''parallel_optimized'', \<lparr>allow_parallel_option = Some True, max_concurrent_option = Some 3\<rparr>),
      (''priority_based'', \<lparr>allow_parallel_option = Some True, max_concurrent_option = Some 2\<rparr>),
      (''sequential'', \<lparr>allow_parallel_option = Some False, max_concurrent_option = Some 1\<rparr>)]"

section \<open>The dependency analyzer\<close>

text \<open>
  The analyzer's configuration (\<open>load_dependency_config\<close>) and its wave dictionaries.
  A wave's \<open>level\<close> is its \<open>"parallel_group"\<close> or \<open>"priority"\<close> entry (absent in a
  sequential wave), its \<open>wave_type\<close> the entry of its \<open>"deployment_context"\<close>. The entry
  \<open>'allow_parallel'\<close> of a strategy is the field \<open>strategy_allow_parallel\<close>.
\<close>

record strategy_settings =
  strategy_allow_parallel :: bool
  max_concurrent_per_wave :: int

record analyzer_config =
  config_services :: "(string \<times> service_entry) list"
  deployment_strategies :: "(string \<times> strategy_settings) list"

record wave =
  wave_number :: int
  level :: "int option"
  services :: "string list"
  allow_parallel :: bool
  max_concurrent :: int
  estimated_time :: int
  wave_type :: string

definition entry :: "string list \<Rightarrow> int \<Rightarrow> int \<Rightarrow> int \<Rightarrow> service_entry" where
  "entry ds p grp t =
     \<lparr>dependencies = ds, priority = p, parallel_group = grp, estimated_deploy_time = t\<rparr>"

definition load_dependency_config :: analyzer_config where
  "load_dependency_config =
     \<lparr>config_services =
        [(''auth-service'', entry [] 1 1 60),
         (''menu-service'', entry [''auth-service''] 2 2 45),
         (''order-service'', entry [''auth-service'', ''menu-service''] 3 3 90),
         (''payment-service'', entry [''auth-service''] 2 2 75),
         (''notification-service'', entry [''auth-service''] 2 2 30),
         (''analytics-service'', entry [''order-service'', ''payment-service''] 4 4 60)],
      deployment_strategies =
        [(''parallel_optimized'', \<lparr>strategy_allow_parallel = True, max_concurrent_per_wave = 3\<rparr>),
         (''priority_based'', \<lparr>strategy_allow_parallel = True, max_concurrent_per_wave = 2\<rparr>),
         (''sequential'', \<lparr>strategy_allow_parallel = False, max_concurrent_per_wave = 1\<rparr>)]\<rparr>"

text \<open>\<open>d[k] = v\<close> on a dict in insertion order: an existing key keeps its place.\<close>

definition dict_set :: "string \<Rightarrow> 'v \<Rightarrow> (string \<times> 'v) list \<Rightarrow> (string \<times> 'v) list" where
  "dict_set k v d =
     (if k \<in> set (map fst d) then map (\<lambda>(k', v'). if k' = k then (k', v) else (k', v')) d
      else d @ [(k, v)])"

definition parse_service_dependencies ::
  "string list \<Rightarrow> analyzer_config \<Rightarrow> (string \<times> service_entry) list" where
  "parse_service_dependencies svcs config =
     fold (\<lambda>service service_info.
             dict_set service
               (case map_of (config_services config) service of
                  Some service_config \<Rightarrow> service_config
                | None \<Rightarrow> entry [] 999 999 60)
               service_info)
          svcs []"

text \<open>\<open>max\<close> of a generator: \<open>ValueError\<close> on an empty one.\<close>

definition py_max :: "int list \<Rightarrow> error + int" where
  "py_max xs = (case xs of [] \<Rightarrow> Inl EmptyMax | x # rest \<Rightarrow> Inr (fold max rest x))"

definition concurrency_limit :: "analyzer_config \<Rightarrow> string \<Rightarrow> error + int" where
  "concurrency_limit config strat =
     (case map_of (deployment_strategies config) strat of
        None \<Rightarrow> Inl (KeyError strat)
      | Some st \<Rightarrow> Inr (max_concurrent_per_wave st))"

fun deploy_times :: "(string \<times> service_entry) list \<Rightarrow> string list \<Rightarrow> error + int list" where
  "deploy_times si [] = Inr []"
| "deploy_times si (s # rest) =
     (case lookup si s of
        Inl e \<Rightarrow> Inl e
      | Inr info \<Rightarrow>
          (case deploy_times si rest of
             Inl e \<Rightarrow> Inl e
           | Inr ts \<Rightarrow> Inr (estimated_deploy_time info # ts)))"

text \<open>The wave dictionary of the two grouping planners.\<close>

definition make_wave ::
  "(string \<times> service_entry) list \<Rightarrow> analyzer_config \<Rightarrow> string \<Rightarrow> int \<Rightarrow> int \<Rightarrow> string list
     \<Rightarrow> error + wave" where
  "make_wave si config strat n lvl current_wave_services =
     (case concurrency_limit config strat of
        Inl e \<Rightarrow> Inl e
      | Inr limit \<Rightarrow>
          (case deploy_times si current_wave_services of
             Inl e \<Rightarrow> Inl e
           | Inr ts \<Rightarrow>
               (case py_max ts of
                  Inl e \<Rightarrow> Inl e
                | Inr t \<Rightarrow>
                    Inr \<lparr>wave_number = n, level = Some lvl,
                         services = current_wave_services,
                         allow_parallel = (length current_wave_services > 1),
                         max_concurrent = min (int (length current_wave_services)) limit,
                         estimated_time = t, wave_type = strat\<rparr>)))"

function parallel_optimized_waves_loop ::
  "set_order \<Rightarrow> (string \<times> service_entry) list \<Rightarrow> analyzer_config \<Rightarrow> wave list \<Rightarrow> string set
     \<Rightarrow> string list \<Rightarrow> int \<Rightarrow> error + wave list" where
  "parallel_optimized_waves_loop ord si config ws deployed remaining n =
     (if remaining = [] then Inr ws
      else
        (case parallel_optimized_step ord si deployed remaining of
           Inl e \<Rightarrow> Inl e
         | Inr (min_group, current_wave_services) \<Rightarrow>
             (case make_wave si config ''parallel_optimized'' n min_group current_wave_services of
                Inl e \<Rightarrow> Inl e
              | Inr w \<Rightarrow>
                  parallel_optimized_waves_loop ord si config (ws @ [w])
                    (deployed \<union> set current_wave_services)
                    (filter (\<lambda>s. s \<notin> set current_wave_services) remaining) (n + 1))))"
  by pat_completeness auto
termination
proof (relation "measure (\<lambda>(ord, si, config, ws, deployed, remaining, n). length remaining)")
  show "wf (measure (\<lambda>(ord, si, config, ws, deployed, remaining, n). length remaining))"
    by simp
next
  fix ord and si :: "(string \<times> service_entry) list" and config ws deployed
    and remaining :: "string list" and n x min_group current_wave_services w
  assume "parallel_optimized_step ord si deployed remaining = Inr x"
    and "(min_group, current_wave_services) = x"
  then have "parallel_optimized_step ord si deployed remaining
      = Inr (min_group, current_wave_services)"
    by simp
  from remove_wave_shorter [OF parallel_optimized_step_char(2) [OF this]
      parallel_optimized_step_char(3) [OF this]]
  show "((ord, si, config, ws @ [w], deployed \<union> set current_wave_services,
           filter (\<lambda>s. s \<notin> set current_wave_services) remaining, n + 1),
          ord, si, config, ws, deployed, remaining, n)
         \<in> measure (\<lambda>(ord, si, config, ws, deployed, remaining, n). length remaining)"
    by simp
qed

function priority_based_waves_loop ::
  "set_order \<Rightarrow> (string \<times> service_entry) list \<Rightarrow> analyzer_config \<Rightarrow> wave list \<Rightarrow> string set
     \<Rightarrow> string list \<Rightarrow> int \<Rightarrow> error + wave list" where
  "priority_based_waves_loop ord si config ws deployed remaining n =
     (if remaining = [] then Inr ws
      else
        (case priority_based_step ord si deployed remaining of
           Inl e \<Rightarrow> Inl e
         | Inr (min_priority, current_wave_services) \<Rightarrow>
             (case make_wave si config ''priority_based'' n min_priority current_wave_services of
                Inl e \<Rightarrow> Inl e
              | Inr w \<Rightarrow>
                  priority_based_waves_loop ord si config (ws @ [w])
                    (deployed \<union> set current_wave_services)
                    (filter (\<lambda>s. s \<notin> set current_wave_services) remaining) (n + 1))))"
  by pat_completeness auto
termination
proof (relation "measure (\<lambda>(ord, si, config, ws, deployed, remaining, n). length remaining)")
  show "wf (measure (\<lambda>(ord, si, config, ws, deployed, remaining, n). length remaining))"
    by simp
next
  fix ord and si :: "(string \<times> service_entry) list" and config ws deployed
    and remaining :: "string list" and n x min_priority current_wave_services w
  assume "priority_based_step ord si deployed remaining = Inr x"
    and "(min_priority, current_wave_services) = x"
  then have "priority_based_step ord si deployed remaining
      = Inr (min_priority, current_wave_services)"
    by simp
  from remove_wave_shorter [OF priority_based_step_char(2) [OF this]
      priority_based_step_char(3) [OF this]]
  show "((ord, si, config, ws @ [w], deployed \<union> set current_wave_services,
           filter (\<lambda>s. s \<notin> set current_wave_services) remaining, n + 1),
          ord, si, config, ws, deployed, remaining, n)
         \<in> measure (\<lambda>(ord, si, config, ws, deployed, remaining, n). length remaining)"
    by simp
qed

definition create_parallel_optimized_waves ::
  "set_order \<Rightarrow> (string \<times> service_entry) list \<Rightarrow> analyzer_config \<Rightarrow> error + wave list" where
  "create_parallel_optimized_waves ord si config =
     parallel_optimized_waves_loop ord si config [] {} (map fst si) 1"

definition create_priority_based_waves ::
  "set_order \<Rightarrow> (string \<times> service_entry) list \<Rightarrow> analyzer_config \<Rightarrow> error + wave list" where
  "create_priority_based_waves ord si config =
     priority_based_waves_loop ord si config [] {} (map fst si) 1"

text \<open>\<open>create_sequential_waves\<close>: the same queue loop, building a wave dictionary per service.\<close>

function sequential_waves_loop ::
  "(string \<times> service_entry) list \<Rightarrow> (string \<Rightarrow> int) \<Rightarrow> string list \<Rightarrow> wave list \<Rightarrow> int
     \<Rightarrow> error + wave list" where
  "sequential_waves_loop si in_degree queue ws n =
     (case queue of
        [] \<Rightarrow> Inr ws
      | current # queue' \<Rightarrow>
          (case lookup si current of
             Inl e \<Rightarrow> Inl e
           | Inr info \<Rightarrow>
               (case release current si in_degree queue' of
                  (in_degree', queue'') \<Rightarrow>
                    sequential_waves_loop si in_degree' queue''
                      (ws @ [\<lparr>wave_number = n, level = None, services = [current],
                               allow_parallel = False, max_concurrent = 1,
                               estimated_time = estimated_deploy_time info,
                               wave_type = ''sequential''\<rparr>])
                      (n + 1))))"
  by pat_completeness auto
termination
proof (relation "measure (\<lambda>(si, in_degree, queue, ws, n).
    length queue + card {s \<in> fst ` set si. 1 \<le> in_degree s})")
  show "wf (measure (\<lambda>(si, in_degree, queue, ws, n).
    length queue + card {s \<in> fst ` set si. 1 \<le> in_degree s}))"
    by simp
next
  fix si :: "(string \<times> service_entry) list" and in_degree queue ws n current queue' info
    in_degree' queue''
  assume q: "queue = current # queue'"
    and "(in_degree', queue'') = release current si in_degree queue'"
  then have "release current si in_degree queue' = (in_degree', queue'')" by simp
  from release_measure [OF _ _ this, of "fst ` set si"]
  have "length queue'' + card {s \<in> fst ` set si. 1 \<le> in_degree' s}
      \<le> length queue' + card {s \<in> fst ` set si. 1 \<le> in_degree s}"
    by simp
  with q show "((si, in_degree', queue'',
        ws @ [\<lparr>wave_number = n, level = None, services = [current],
                 allow_parallel = False, max_concurrent = 1,
                 estimated_time = estimated_deploy_time info,
                 wave_type = ''sequential''\<rparr>], n + 1),
        si, in_degree, queue, ws, n)
      \<in> measure (\<lambda>(si, in_degree, queue, ws, n).
          length queue + card {s \<in> fst ` set si. 1 \<le> in_degree s})"
    by simp
qed

definition create_sequential_waves :: "(string \<times> service_entry) list \<Rightarrow> error + wave list" where
  "create_sequential_waves si =
     (let in_degree = count_in_degrees si si (\<lambda>service. 0);
          queue = filter (\<lambda>service. in_degree service = 0) (map fst si)
      in sequential_waves_loop si in_degree queue [] 1)"

text \<open>
  \<open>create_deployment_plan\<close>. The two percentages (\<open>time_savings_percentage\<close> and
  \<open>parallel_efficiency\<close>) are floating-point numbers and are left out of the record;
  computing them raises nothing. The fields \<open>strategy\<close> and \<open>waves\<close> are
  \<open>plan_strategy\<close> and \<open>plan_waves\<close>.
\<close>

record deployment_plan =
  plan_strategy :: string
  total_waves :: nat
  total_services :: nat
  estimated_sequential_time :: int
  estimated_optimized_time :: int
  time_savings_seconds :: int
  plan_waves :: "wave list"

definition create_deployment_plan :: "wave list \<Rightarrow> string \<Rightarrow> deployment_plan" where
  "create_deployment_plan ws strat =
     (let total_estimated_time = sum_list (map estimated_time ws);
          optimized_time =
            (if strat = ''parallel_optimized'' then
               (case map estimated_time ws of [] \<Rightarrow> 0 | t # ts \<Rightarrow> fold max ts t)
             else total_estimated_time);
          time_savings =
            (if strat = ''parallel_optimized'' then total_estimated_time - optimized_time
             else 0)
      in \<lparr>plan_strategy = strat,
          total_waves = length ws,
          total_services = sum_list (map (\<lambda>w. length (services w)) ws),
          estimated_sequential_time = total_estimated_time,
          estimated_optimized_time = optimized_time,
          time_savings_seconds = time_savings,
          plan_waves = ws\<rparr>)"

definition estimate_total_deployment_time :: "deployment_plan \<Rightarrow> int" where
  "estimate_total_deployment_time plan =
     (if plan_strategy plan = ''sequential'' then estimated_sequential_time plan
      else estimated_optimized_time plan)"

text \<open>
  \<open>calculate_max_dependency_depth\<close>: \<open>get_depth\<close> recurses with a copy of \<open>visited\<close>
  per dependency; its first argument is the number of frames still available, as for
  \<open>dfs\<close>. The final \<open>max\<close> runs over one depth per key of the service map.
\<close>

fun get_depth :: "nat \<Rightarrow> 'a services \<Rightarrow> string \<Rightarrow> string set \<Rightarrow> error + int"
  and max_dep_depth :: "nat \<Rightarrow> 'a services \<Rightarrow> string list \<Rightarrow> string set \<Rightarrow> int \<Rightarrow> error + int"
where
  "get_depth 0 si service visited = Inl RecursionError"
| "get_depth (Suc n) si service visited =
     (if service \<in> visited then Inr 0
      else
        (case map_of si service of
           None \<Rightarrow> Inr 1
         | Some info \<Rightarrow>
             if dependencies info = [] then Inr 1
             else
               (case max_dep_depth n si (dependencies info) (insert service visited) 0 of
                  Inl e \<Rightarrow> Inl e
                | Inr m \<Rightarrow> Inr (m + 1))))"
| "max_dep_depth n si [] visited m = Inr m"
| "max_dep_depth n si (dep # deps) visited m =
     (case get_depth n si dep visited of
        Inl e \<Rightarrow> Inl e
      | Inr dep_depth \<Rightarrow> max_dep_depth n si deps visited (max m dep_depth))"

fun depths :: "nat \<Rightarrow> 'a services \<Rightarrow> string list \<Rightarrow> error + int list" where
  "depths limit si [] = Inr []"
| "depths limit si (service # rest) =
     (case get_depth limit si service {} of
        Inl e \<Rightarrow> Inl e
      | Inr d \<Rightarrow> (case depths limit si rest of Inl e \<Rightarrow> Inl e | Inr ds \<Rightarrow> Inr (d # ds)))"

definition calculate_max_dependency_depth :: "nat \<Rightarrow> 'a services \<Rightarrow> error + int" where
  "calculate_max_dependency_depth limit si =
     (case depths limit si (map fst si) of Inl e \<Rightarrow> Inl e | Inr ds \<Rightarrow> py_max ds)"

text \<open>
  \<open>lambda_handler\<close>: the body of the \<open>try\<close> is \<open>analyze\<close>; the \<open>except Exception\<close>
  turns every error into the status-500 response.
\<close>

record event =
  event_services :: "string list option"
  event_strategy :: "string option"

record analysis =
  analysis_strategy :: string
  analysis_total_services :: nat
  analysis_total_waves :: nat
  deployment_waves :: "wave list"
  analysis_plan :: deployment_plan
  estimated_time_seconds :: int
  parallel_optimization :: bool
  total_dependencies :: nat
  independent_services :: nat
  max_dependency_depth :: int

datatype response = Status200 analysis | Status500 error

definition analyze :: "set_order \<Rightarrow> nat \<Rightarrow> event \<Rightarrow> error + analysis" where
  "analyze ord limit ev =
     (let svcs = (case event_services ev of None \<Rightarrow> [] | Some xs \<Rightarrow> xs);
          strat = (case event_strategy ev of None \<Rightarrow> ''parallel_optimized'' | Some s \<Rightarrow> s);
          dependency_config = load_dependency_config;
          service_info = parse_service_dependencies svcs dependency_config
      in case validate_dependencies ord limit service_info of
           Inl e \<Rightarrow> Inl e
         | Inr (valid, errors) \<Rightarrow>
             if \<not> valid then Inl (InvalidDependencies errors)
             else
               (case (if strat = ''parallel_optimized'' then
                        create_parallel_optimized_waves ord service_info dependency_config
                      else if strat = ''priority_based'' then
                        create_priority_based_waves ord service_info dependency_config
                      else create_sequential_waves service_info) of
                  Inl e \<Rightarrow> Inl e
                | Inr ws \<Rightarrow>
                    (let plan = create_deployment_plan ws strat;
                         estimated_time = estimate_total_deployment_time plan
                     in case calculate_max_dependency_depth limit service_info of
                          Inl e \<Rightarrow> Inl e
                        | Inr depth \<Rightarrow>
                            Inr \<lparr>analysis_strategy = strat,
                                 analysis_total_services = length svcs,
                                 analysis_total_waves = length ws,
                                 deployment_waves = ws,
                                 analysis_plan = plan,
                                 estimated_time_seconds = estimated_time,
                                 parallel_optimization = (strat \<noteq> ''sequential''),
                                 total_dependencies =
                                   sum_list (map (\<lambda>(s, info). length (dependencies info)) service_info),
                                 independent_services =
                                   length (filter (\<lambda>(s, info). dependencies info = []) service_info),
                                 max_dependency_depth = depth\<rparr>)))"

definition lambda_handler :: "set_order \<Rightarrow> nat \<Rightarrow> event \<Rightarrow> response" where
  "lambda_handler ord limit ev =
     (case analyze ord limit ev of Inl e \<Rightarrow> Status500 e | Inr result \<Rightarrow> Status200 result)"

text \<open>
  \<open>_estimate_wave_time\<close> of the class: a service takes the base time, a complex one
  twice as long; the maximum starts at the base time.
\<close>

definition service_time :: "string \<Rightarrow> int" where
  "service_time service =
     (if service \<in> set [''order-service'', ''payment-service''] then 60 * 2 else 60)"

definition estimate_wave_time :: "string list \<Rightarrow> int" where
  "estimate_wave_time svcs = fold (\<lambda>service max_time. max max_time (service_time service)) svcs 60"

text \<open>
  The end-to-end example of the specification: \<open>auth\<close>, \<open>menu\<close>, \<open>payment\<close> and
  \<open>order\<close>, as the analyzer's configuration declares them.
\<close>

definition four_services :: "(string \<times> service_entry) list" where
  "four_services =
     [(''auth-service'', entry [] 1 1 60),
      (''menu-service'', entry [''auth-service''] 2 2 45),
      (''payment-service'', entry [''auth-service''] 2 2 75),
      (''order-service'', entry [''auth-service'', ''menu-service''] 3 3 90)]"

definition grouped_wave :: "string \<Rightarrow> int \<Rightarrow> string list \<Rightarrow> int \<Rightarrow> int \<Rightarrow> wave" where
  "grouped_wave strat n svcs limit t =
     \<lparr>wave_number = n, level = Some n, services = svcs, allow_parallel = (length svcs > 1),
      max_concurrent = limit, estimated_time = t, wave_type = strat\<rparr>"

definition four_waves :: "string \<Rightarrow> wave list" where
  "four_waves strat =
     [grouped_wave strat 1 [''auth-service''] 1 60,
      grouped_wave strat 2 [''menu-service'', ''payment-service''] 2 75,
      grouped_wave strat 3 [''order-service''] 1 90]"

(*DEFS*)

section \<open>The validator returns unless the frames run out\<close>

lemma dfs_deps_returns:
  assumes P: "\<And>s V R. s \<notin> V \<Longrightarrow> s \<in> N \<Longrightarrow> card (N - V) \<le> n \<Longrightarrow>
                \<exists>b V' R'. dfs n g s (V, R) = Inr (b, V', R') \<and> V \<subseteq> V'"
    and fin: "finite N"
  shows "set ds \<subseteq> N \<Longrightarrow> card (N - V) \<le> n \<Longrightarrow>
         \<exists>b V' R'. dfs_deps n g ds (V, R) = Inr (b, V', R') \<and> V \<subseteq> V'"
proof (induction ds arbitrary: V R)
  case Nil
  then show ?case by auto
next
  case (Cons d ds)
  show ?case
  proof (cases "d \<in> V")
    case True
    with Cons.IH [of V R] Cons.prems show ?thesis
      by auto
  next
    case False
    with Cons.prems P [of d V R] obtain b V1 R1 where
      r: "dfs n g d (V, R) = Inr (b, V1, R1)" and sub: "V \<subseteq> V1"
      by auto
    have "N - V1 \<subseteq> N - V" using sub by auto
    with fin have "card (N - V1) \<le> card (N - V)"
      by (intro card_mono) auto
    with Cons.prems have c: "card (N - V1) \<le> n" by simp
    from Cons.IH [of V1 R1] Cons.prems c obtain b' V' R' where
      r': "dfs_deps n g ds (V1, R1) = Inr (b', V', R')" and sub': "V1 \<subseteq> V'"
      by auto
    show ?thesis
    proof (cases b)
      case True
      with False r sub show ?thesis by auto
    next
      case b: False
      with False r r' sub sub' show ?thesis by auto
    qed
  qed
qed

lemma dfs_returns:
  assumes fin: "finite N"
    and closed: "\<And>k info. map_of g k = Some info \<Longrightarrow> set (dependencies info) \<subseteq> N"
  shows "s \<notin> V \<Longrightarrow> s \<in> N \<Longrightarrow> card (N - V) \<le> n \<Longrightarrow>
         \<exists>b V' R'. dfs n g s (V, R) = Inr (b, V', R') \<and> V \<subseteq> V'"
proof (induction n arbitrary: s V R)
  case 0
  then have "s \<in> N - V" by simp
  with fin have "card (N - V) \<noteq> 0" by auto
  with 0 show ?case by simp
next
  case (Suc n)
  have "N - insert s V = (N - V) - {s}" by auto
  moreover have "s \<in> N - V" using Suc.prems by simp
  ultimately have "card (N - insert s V) = card (N - V) - 1"
    using fin by simp
  with Suc.prems have c: "card (N - insert s V) \<le> n" by simp
  show ?case
  proof (cases "map_of g s")
    case None
    then show ?thesis by auto
  next
    case (Some info)
    have "\<exists>b V' R'. dfs_deps n g (dependencies info) (insert s V, insert s R) = Inr (b, V', R')
            \<and> insert s V \<subseteq> V'"
      by (rule dfs_deps_returns [OF Suc.IH fin closed [OF Some] c])
    then obtain b V' R' where
      r: "dfs_deps n g (dependencies info) (insert s V, insert s R) = Inr (b, V', R')"
      and sub: "insert s V \<subseteq> V'"
      by blast
    show ?thesis
      using Some r sub by (cases b) auto
  qed
qed

lemma dfs_all_returns:
  assumes fin: "finite N"
    and closed: "\<And>k info. map_of g k = Some info \<Longrightarrow> set (dependencies info) \<subseteq> N"
  shows "set ss \<subseteq> N \<Longrightarrow> card (N - V) \<le> n \<Longrightarrow> \<exists>b. dfs_all n g ss (V, R) = Inr b"
proof (induction ss arbitrary: V R)
  case Nil
  then show ?case by auto
next
  case (Cons s ss)
  show ?case
  proof (cases "s \<in> V")
    case True
    with Cons.IH [of V R] Cons.prems show ?thesis by auto
  next
    case False
    have "\<exists>b V' R'. dfs n g s (V, R) = Inr (b, V', R') \<and> V \<subseteq> V'"
    proof (rule dfs_returns [where N = N])
      show "finite N" by (rule fin)
      show "set (dependencies info) \<subseteq> N" if "map_of g k = Some info" for k info
        using that by (rule closed)
      show "s \<notin> V" by (rule False)
      show "s \<in> N" using Cons.prems by simp
      show "card (N - V) \<le> n" using Cons.prems by simp
    qed
    then obtain b V1 R1 where
      r: "dfs n g s (V, R) = Inr (b, V1, R1)" and sub: "V \<subseteq> V1"
      by blast
    have "N - V1 \<subseteq> N - V" using sub by auto
    with fin have "card (N - V1) \<le> card (N - V)"
      by (intro card_mono) auto
    with Cons.prems have c: "card (N - V1) \<le> n" by simp
    from Cons.IH [of V1 R1] Cons.prems c obtain b' where
      "dfs_all n g ss (V1, R1) = Inr b'" by auto
    with False r show ?thesis by (cases b) auto
  qed
qed

lemma graph_nodes_closed:
  "map_of g k = Some info \<Longrightarrow> set (dependencies info) \<subseteq> set (graph_nodes g)"
  by (auto simp: graph_nodes_def dest!: map_of_SomeD)

lemma has_circular_dependencies_returns:
  assumes "length (graph_nodes g) \<le> limit"
  shows "\<exists>b. has_circular_dependencies limit g = Inr b"
proof -
  have "card (set (graph_nodes g) - {}) \<le> limit"
    using card_length [of "graph_nodes g"] assms by simp
  moreover have "set (map fst g) \<subseteq> set (graph_nodes g)"
    by (simp add: graph_nodes_def)
  ultimately show ?thesis
    unfolding has_circular_dependencies_def
    by (intro dfs_all_returns [where N = "set (graph_nodes g)"]) (auto dest: graph_nodes_closed)
qed


lemma dfs_numeral [simp]:
  "dfs (numeral k) g service (visited, rec_stack) =
     (case (case map_of g service of
              None \<Rightarrow> Inr (False, insert service visited, insert service rec_stack)
            | Some info \<Rightarrow>
                dfs_deps (pred_numeral k) g (dependencies info)
                  (insert service visited, insert service rec_stack)) of
        Inl e \<Rightarrow> Inl e
      | Inr (True, st) \<Rightarrow> Inr (True, st)
      | Inr (False, (visited', rec_stack')) \<Rightarrow> Inr (False, (visited', rec_stack' - {service})))"
  by (simp add: numeral_eq_Suc)

lemma dfs_error:
  "dfs n g s st = Inl e \<Longrightarrow> e = RecursionError"
  "dfs_deps n g ds st = Inl e \<Longrightarrow> e = RecursionError"
proof (induction n g s st and n g ds st rule: dfs_dfs_deps.induct)
  case (1 g service st)
  then show ?case by simp
next
  case (2 n g service visited rec_stack)
  then show ?case
    by (auto split: option.splits sum.splits bool.splits prod.splits)
next
  case (3 n g st)
  then show ?case by simp
next
  case (4 n g dep deps visited rec_stack)
  then show ?case
    by (auto split: if_splits sum.splits bool.splits prod.splits)
qed

lemma dfs_all_error: "dfs_all n g ss st = Inl e \<Longrightarrow> e = RecursionError"
proof (induction ss arbitrary: st)
  case Nil
  then show ?case by simp
next
  case (Cons s ss)
  then show ?case
    by (cases st) (auto split: if_splits sum.splits bool.splits dest: dfs_error(1))
qed

section \<open>Missing dependencies\<close>

lemma set_check_missing: "set (check_missing_dependencies ord g) = missing_ids g"
  by (auto simp: check_missing_dependencies_def missing_ids_def)

lemma distinct_check_missing: "distinct (check_missing_dependencies ord g)"
  by (simp add: check_missing_dependencies_def)

text \<open>
  C6, as the code has it. The validator raises nothing but \<open>RecursionError\<close>, and it
  returns its report whenever the frames available to \<open>dfs\<close> are at least as many as
  the ids the graph mentions. In every report, the errors other than CircularDependency
  are exactly one MissingDependency per distinct dependency id that is not a key of the
  graph, however many services refer to it; the error carries the missing id only, not
  the referring service. All of them come out of the one call.
\<close>

theorem missing_dependency_errors:
  "(length (graph_nodes g) \<le> limit \<longrightarrow>
      (\<exists>valid errors. validate_dependencies ord limit g = Inr (valid, errors)))
   \<and> (\<forall>e. validate_dependencies ord limit g = Inl e \<longrightarrow> e = RecursionError)
   \<and> (\<forall>valid errors. validate_dependencies ord limit g = Inr (valid, errors) \<longrightarrow>
        filter (\<lambda>e. e \<noteq> CircularDependency) errors =
          map MissingDependency (check_missing_dependencies ord g)
        \<and> set (check_missing_dependencies ord g) = missing_ids g
        \<and> distinct (check_missing_dependencies ord g)
        \<and> length (filter (\<lambda>e. e \<noteq> CircularDependency) errors) = card (missing_ids g))"
proof (intro conjI allI impI)
  assume "length (graph_nodes g) \<le> limit"
  from has_circular_dependencies_returns [OF this]
  show "\<exists>valid errors. validate_dependencies ord limit g = Inr (valid, errors)"
    by (auto simp: validate_dependencies_def Let_def)
next
  fix e assume "validate_dependencies ord limit g = Inl e"
  then show "e = RecursionError"
    by (auto simp: validate_dependencies_def has_circular_dependencies_def Let_def
        split: sum.splits dest: dfs_all_error)
next
  fix valid errors
  assume v: "validate_dependencies ord limit g = Inr (valid, errors)"
  have len: "length (check_missing_dependencies ord g) = card (missing_ids g)"
    using distinct_card [OF distinct_check_missing, of ord g]
    by (simp add: set_check_missing)
  from v show "filter (\<lambda>e. e \<noteq> CircularDependency) errors =
      map MissingDependency (check_missing_dependencies ord g)"
    by (auto simp: validate_dependencies_def Let_def filter_id_conv split: sum.splits if_splits)
  then show "length (filter (\<lambda>e. e \<noteq> CircularDependency) errors) = card (missing_ids g)"
    using len by simp
  show "set (check_missing_dependencies ord g) = missing_ids g"
    by (rule set_check_missing)
  show "distinct (check_missing_dependencies ord g)"
    by (rule distinct_check_missing)
qed

text \<open>
  Two services that both name the undeclared \<open>Z\<close>, with 1000 frames: one error. The
  graph \<open>{A: deps=[Z]}\<close> of the specification: the report names \<open>Z\<close> alone.
\<close>

theorem missing_dependency_errors_witness:
  "length (graph_nodes [(''A'', svc [''Z''] 1 1), (''B'', svc [''Z''] 1 1)]) \<le> 1000
   \<and> validate_dependencies insertion_order 1000 [(''A'', svc [''Z''] 1 1), (''B'', svc [''Z''] 1 1)]
       = Inr (False, [MissingDependency ''Z''])
   \<and> check_missing_dependencies insertion_order [(''A'', svc [''Z''] 1 1), (''B'', svc [''Z''] 1 1)]
       = [''Z'']
   \<and> card (missing_ids [(''A'', svc [''Z''] 1 1), (''B'', svc [''Z''] 1 1)]) = 1
   \<and> validate_dependencies insertion_order 1000 [(''A'', svc [''Z''] 1 1)]
       = Inr (False, [MissingDependency ''Z''])"
proof -
  have v: "validate_dependencies insertion_order 1000
        [(''A'', svc [''Z''] 1 1), (''B'', svc [''Z''] 1 1)]
      = Inr (False, [MissingDependency ''Z''])"
    by (simp add: validate_dependencies_def has_circular_dependencies_def
        check_missing_dependencies_def svc_def)
  have a: "validate_dependencies insertion_order 1000 [(''A'', svc [''Z''] 1 1)]
      = Inr (False, [MissingDependency ''Z''])"
    by (simp add: validate_dependencies_def has_circular_dependencies_def
        check_missing_dependencies_def svc_def)
  have n: "length (graph_nodes [(''A'', svc [''Z''] 1 1), (''B'', svc [''Z''] 1 1)]) \<le> 1000"
    by (simp add: graph_nodes_def svc_def)
  have c: "check_missing_dependencies insertion_order
        [(''A'', svc [''Z''] 1 1), (''B'', svc [''Z''] 1 1)] = [''Z'']"
    by (simp add: check_missing_dependencies_def svc_def)
  have "\<forall>valid errors. validate_dependencies insertion_order 1000
          [(''A'', svc [''Z''] 1 1), (''B'', svc [''Z''] 1 1)] = Inr (valid, errors) \<longrightarrow>
        length (filter (\<lambda>e. e \<noteq> CircularDependency) errors)
          = card (missing_ids [(''A'', svc [''Z''] 1 1), (''B'', svc [''Z''] 1 1)])"
    using missing_dependency_errors
      [of "[(''A'', svc [''Z''] 1 1), (''B'', svc [''Z''] 1 1)]" 1000 insertion_order]
    by blast
  with v have "length (filter (\<lambda>e. e \<noteq> CircularDependency) [MissingDependency ''Z''])
      = card (missing_ids [(''A'', svc [''Z''] 1 1), (''B'', svc [''Z''] 1 1)])"
    by blast
  then have k: "card (missing_ids [(''A'', svc [''Z''] 1 1), (''B'', svc [''Z''] 1 1)]) = 1"
    by simp
  show ?thesis
    by (intro conjI n v c k a)
qed

text \<open>
  C6 as stated fails: two services that both name the undeclared \<open>Z\<close> are two
  (service, dependency) pairs, and the validator reports a single error.
\<close>

theorem missing_dependency_per_pair_counterexample:
  "validate_dependencies insertion_order 1000 [(''A'', svc [''Z''] 1 1), (''B'', svc [''Z''] 1 1)]
     = Inr (False, [MissingDependency ''Z''])
   \<and> missing_pairs [(''A'', svc [''Z''] 1 1), (''B'', svc [''Z''] 1 1)]
     = [(''A'', ''Z''), (''B'', ''Z'')]"
  by (simp add: validate_dependencies_def has_circular_dependencies_def
      check_missing_dependencies_def missing_pairs_def svc_def)

section \<open>Rollback order\<close>

lemma rollback_remaining:
  "filter (\<lambda>s. s \<notin> set (filter (\<lambda>service. service \<in> set deployed) cfg)) (remdups deployed)
     = remdups (filter (\<lambda>s. s \<notin> set cfg) deployed)"
proof -
  have "filter (\<lambda>s. s \<notin> set (filter (\<lambda>service. service \<in> set deployed) cfg)) (remdups deployed)
      = filter (\<lambda>s. s \<notin> set cfg) (remdups deployed)"
    by (rule filter_cong) auto
  then show ?thesis
    by (simp add: remdups_filter)
qed

text \<open>
  C8, as the code has it. For every configured list, every list of deployed services and
  every iteration order of the set of leftovers, the result is the configured ids that
  are deployed, in configured order, followed by the deployed ids that the configured
  list does not hold, each once, in the iteration order of the set that holds them. The
  function always returns. Configured \<open>[D,C,B,A]\<close> with deployed \<open>{A,B}\<close> gives \<open>[B,A]\<close>.
\<close>

theorem rollback_order_shape:
  "get_rollback_order ord (Some cfg) deployed =
     filter (\<lambda>s. s \<in> set deployed) cfg
       @ iterate ord (remdups (filter (\<lambda>s. s \<notin> set cfg) deployed))
   \<and> set (iterate ord (remdups (filter (\<lambda>s. s \<notin> set cfg) deployed))) = set deployed - set cfg
   \<and> distinct (iterate ord (remdups (filter (\<lambda>s. s \<notin> set cfg) deployed)))
   \<and> get_rollback_order ord None deployed = iterate ord (remdups deployed)
   \<and> get_rollback_order ord (Some [''D'', ''C'', ''B'', ''A'']) [''A'', ''B''] = [''B'', ''A'']"
proof (intro conjI)
  show "get_rollback_order ord (Some cfg) deployed =
     filter (\<lambda>s. s \<in> set deployed) cfg
       @ iterate ord (remdups (filter (\<lambda>s. s \<notin> set cfg) deployed))"
    unfolding get_rollback_order_def Let_def option.case
    by (simp only: rollback_remaining)
  show "set (iterate ord (remdups (filter (\<lambda>s. s \<notin> set cfg) deployed))) = set deployed - set cfg"
    by auto
  show "distinct (iterate ord (remdups (filter (\<lambda>s. s \<notin> set cfg) deployed)))"
    by simp
  show "get_rollback_order ord None deployed = iterate ord (remdups deployed)"
    by (simp add: get_rollback_order_def)
  show "get_rollback_order ord (Some [''D'', ''C'', ''B'', ''A'']) [''A'', ''B''] = [''B'', ''A'']"
    by (simp add: get_rollback_order_def)
qed

text \<open>
  C8 as stated fails in its "fixed deterministic order": with nothing configured and
  \<open>X\<close>, \<open>Y\<close> deployed, the order of the result is the iteration order of the set.
\<close>

theorem rollback_order_counterexample:
  "get_rollback_order insertion_order (Some []) [''X'', ''Y''] = [''X'', ''Y'']
   \<and> get_rollback_order reverse_order (Some []) [''X'', ''Y''] = [''Y'', ''X'']"
  by (simp add: get_rollback_order_def)

section \<open>The analyzer on an empty service list\<close>

lemma parse_no_services [simp]: "parse_service_dependencies [] config = []"
  by (simp add: parse_service_dependencies_def)

lemma validate_empty: "validate_dependencies ord limit [] = Inr (True, [])"
  by (simp add: validate_dependencies_def has_circular_dependencies_def
      check_missing_dependencies_def)

lemma waves_of_nothing:
  "create_parallel_optimized_waves ord [] config = Inr []"
  "create_priority_based_waves ord [] config = Inr []"
  "create_sequential_waves [] = Inr []"
  by (simp_all add: create_parallel_optimized_waves_def create_priority_based_waves_def
      create_sequential_waves_def)

text \<open>
  C10. With no service in the map, \<open>calculate_max_dependency_depth\<close> takes the maximum
  of an empty collection, which raises; validation and wave creation have succeeded by
  then (with an empty wave list), so for every strategy the entry point answers an
  empty or absent service list with the status-500 error response, not with a plan.
\<close>

theorem empty_service_list_is_an_error:
  "calculate_max_dependency_depth limit ([] :: 'a services) = Inl EmptyMax
   \<and> lambda_handler ord limit \<lparr>event_services = Some [], event_strategy = strat\<rparr>
       = Status500 EmptyMax
   \<and> lambda_handler ord limit \<lparr>event_services = None, event_strategy = strat\<rparr>
       = Status500 EmptyMax"
  by (simp add: calculate_max_dependency_depth_def py_max_def lambda_handler_def analyze_def
      validate_empty waves_of_nothing Let_def split: option.splits)

section \<open>Timing of a plan\<close>

lemma parse_four:
  "parse_service_dependencies
     [''auth-service'', ''menu-service'', ''payment-service'', ''order-service'']
     load_dependency_config = four_services"
  by (simp add: parse_service_dependencies_def load_dependency_config_def dict_set_def
      four_services_def)

lemma four_parallel_optimized:
  "create_parallel_optimized_waves insertion_order four_services load_dependency_config
     = Inr (four_waves ''parallel_optimized'')"
  by (simp add: create_parallel_optimized_waves_def four_services_def load_dependency_config_def
      entry_def parallel_optimized_step_def lookup_def deps_satisfied_def group_append_def
      group_members_def make_wave_def concurrency_limit_def py_max_def four_waves_def
      grouped_wave_def Let_def)

lemma four_priority_based:
  "create_priority_based_waves insertion_order four_services load_dependency_config
     = Inr (four_waves ''priority_based'')"
  by (simp add: create_priority_based_waves_def four_services_def load_dependency_config_def
      entry_def priority_based_step_def lookup_def deps_satisfied_def group_append_def
      group_members_def make_wave_def concurrency_limit_def py_max_def four_waves_def
      grouped_wave_def Let_def)

lemma fold_max_Max: "fold max ts (t :: int) = Max (set (t # ts))"
  by (simp only: Max.set_eq_fold)

text \<open>
  C4, as the code has it. For every wave list with at least one wave and every strategy
  tag: the sequential total is the sum of the waves' estimated times; the optimized
  total is the maximum per-wave estimated time under \<open>parallel_optimized\<close> and the
  sequential total under every other strategy, \<open>priority_based\<close> included; the time
  savings are the sequential total minus the optimized total.
\<close>

theorem plan_times:
  assumes "ws \<noteq> []"
  shows "estimated_sequential_time (create_deployment_plan ws strat)
           = sum_list (map estimated_time ws)
       \<and> estimated_optimized_time (create_deployment_plan ws strat)
           = (if strat = ''parallel_optimized'' then Max (estimated_time ` set ws)
              else sum_list (map estimated_time ws))
       \<and> time_savings_seconds (create_deployment_plan ws strat)
           = estimated_sequential_time (create_deployment_plan ws strat)
               - estimated_optimized_time (create_deployment_plan ws strat)"
proof -
  from assms obtain w rest where ws: "ws = w # rest"
    by (meson neq_Nil_conv)
  have "fold max (map estimated_time rest) (estimated_time w) = Max (estimated_time ` set ws)"
    unfolding fold_max_Max ws by simp
  then show ?thesis
    by (simp add: create_deployment_plan_def Let_def ws)
qed

text \<open>
  The end-to-end example under \<open>parallel_optimized\<close>: waves \<open>[auth]\<close>,
  \<open>[menu, payment]\<close>, \<open>[order]\<close>, sequential total 225, optimized total 90, savings 135.
\<close>

theorem plan_times_witness:
  "create_parallel_optimized_waves insertion_order four_services load_dependency_config
     = Inr (four_waves ''parallel_optimized'')
   \<and> four_waves ''parallel_optimized'' \<noteq> []
   \<and> Max (estimated_time ` set (four_waves ''parallel_optimized'')) = 90
   \<and> estimated_sequential_time
        (create_deployment_plan (four_waves ''parallel_optimized'') ''parallel_optimized'') = 225
   \<and> estimated_optimized_time
        (create_deployment_plan (four_waves ''parallel_optimized'') ''parallel_optimized'') = 90
   \<and> time_savings_seconds
        (create_deployment_plan (four_waves ''parallel_optimized'') ''parallel_optimized'') = 135"
proof -
  have ne: "four_waves ''parallel_optimized'' \<noteq> []"
    by (simp add: four_waves_def)
  have m: "Max (estimated_time ` set (four_waves ''parallel_optimized'')) = 90"
    by (simp add: four_waves_def grouped_wave_def)
  have s: "sum_list (map estimated_time (four_waves ''parallel_optimized'')) = 225"
    by (simp add: four_waves_def grouped_wave_def)
  from plan_times [OF ne, of "''parallel_optimized''"] m s
  have "estimated_sequential_time
        (create_deployment_plan (four_waves ''parallel_optimized'') ''parallel_optimized'') = 225"
    and "estimated_optimized_time
        (create_deployment_plan (four_waves ''parallel_optimized'') ''parallel_optimized'') = 90"
    and "time_savings_seconds
        (create_deployment_plan (four_waves ''parallel_optimized'') ''parallel_optimized'') = 135"
    by simp_all
  with four_parallel_optimized ne m show ?thesis
    by (intro conjI)
qed

text \<open>
  C4 as stated fails for \<open>priority_based\<close>: the same four services planned by priority
  give the same three waves, and the optimized total is their sum 225, not the maximum
  per-wave time 90.
\<close>

theorem priority_based_optimized_time_counterexample:
  "create_priority_based_waves insertion_order four_services load_dependency_config
     = Inr (four_waves ''priority_based'')
   \<and> estimated_optimized_time
        (create_deployment_plan (four_waves ''priority_based'') ''priority_based'') = 225
   \<and> Max (estimated_time ` set (four_waves ''priority_based'')) = 90"
proof -
  have "estimated_optimized_time
        (create_deployment_plan (four_waves ''priority_based'') ''priority_based'') = 225"
    by (simp add: create_deployment_plan_def four_waves_def grouped_wave_def Let_def)
  moreover have "Max (estimated_time ` set (four_waves ''priority_based'')) = 90"
    by (simp add: four_waves_def grouped_wave_def)
  ultimately show ?thesis
    using four_priority_based by (intro conjI)
qed

end
